theory Spec2Isabelle
  imports Complex_Main
begin

section \<open>Conventions of the embedding\<close>

text \<open>
  The module \<^verbatim>\<open>gymmeforce/common/utils.py\<close> is embedded function by function.
  Python integers are \<open>int\<close>. A floating-point number is the real number it denotes.
  Where the code computes with floats (the decay schedules), every arithmetic operation
  is followed by the rounding function \<open>rd\<close>, a parameter of the embedding:
  \<open>double_round\<close> is the rounding of IEEE binary64 (to nearest, ties to even; the
  exponent range is not bounded, so there is no overflow, underflow, infinity or NaN),
  the identity is exact arithmetic. Comparisons of floats are exact. Every exception the
  code or numpy raises is a value of \<open>error\<close>,
  returned as \<open>Inl\<close>; a method that mutates \<open>self\<close> returns the updated object.
  Calls to numpy's global random generator take the value they consume as an extra
  argument, and \<^verbatim>\<open>np.empty\<close> takes the uninitialised memory it hands back as an
  extra argument.
  A state (one observation array of the buffer's state shape, already squeezed) is a
  value of a type variable; the numpy axis permutations of \<^verbatim>\<open>get_data\<close> and
  \<^verbatim>\<open>sample\<close> rearrange the layout of the returned arrays only and are not part
  of the embedding.
\<close>

datatype error = ValueError | IndexError | AttributeError | TypeError | ZeroDivisionError

subsection \<open>numpy and Python primitives\<close>

text \<open>
  \<^verbatim>\<open>xs[i] = v\<close> on an array of length \<open>n\<close>: a negative index counts from the end, an
  index outside \<open>[-n, n)\<close> raises IndexError.
\<close>

definition setitem :: "'x list \<Rightarrow> int \<Rightarrow> 'x \<Rightarrow> error + 'x list" where
  "setitem xs i v =
     (if i < - int (length xs) \<or> int (length xs) \<le> i then Inl IndexError
      else if i < 0 then Inr (xs[nat (int (length xs) + i) := v])
      else Inr (xs[nat i := v]))"

text \<open>
  \<^verbatim>\<open>xs[i:j]\<close>: each bound is clamped to \<open>[0, n]\<close> after a negative bound has been
  counted from the end; the slice is empty when the bounds cross.
\<close>

definition slice_bound :: "nat \<Rightarrow> int \<Rightarrow> nat" where
  "slice_bound n i = (if i < 0 then nat (max 0 (int n + i)) else min n (nat i))"

definition py_slice :: "'x list \<Rightarrow> int \<Rightarrow> int \<Rightarrow> 'x list" where
  "py_slice xs i j =
     (let a = slice_bound (length xs) i; b = slice_bound (length xs) j
      in take (b - a) (drop a xs))"

definition np_any :: "bool list \<Rightarrow> bool" where
  "np_any bs \<longleftrightarrow> True \<in> set bs"

text \<open>\<^verbatim>\<open>np.zeros\<close> and \<^verbatim>\<open>np.empty\<close> refuse a negative dimension.\<close>

definition np_zeros :: "int \<Rightarrow> error + 's::zero list" where
  "np_zeros n = (if n < 0 then Inl ValueError else Inr (replicate (nat n) 0))"

definition np_empty :: "int \<Rightarrow> (nat \<Rightarrow> 'x) \<Rightarrow> error + 'x list" where
  "np_empty n junk = (if n < 0 then Inl ValueError else Inr (map junk [0..<nat n]))"

text \<open>
  \<^verbatim>\<open>np.random.randint(low, high)\<close> for \<open>low < high\<close>, from the entropy \<open>r\<close> it consumes:
  every value of \<open>[low, high)\<close> is reached by some \<open>r\<close>. For \<open>low \<ge> high\<close> numpy raises
  ValueError before it draws; the caller below makes that test.
\<close>

definition randint :: "int \<Rightarrow> int \<Rightarrow> nat \<Rightarrow> int" where
  "randint low high r = low + int r mod (high - low)"

subsection \<open>Floating-point rounding\<close>

text \<open>
  Rounding to the nearest integer, ties to the even one, and rounding to the nearest
  number with a significand of 53 bits: \<open>floor_log2 \<bar>x\<bar>\<close> is the exponent of the leading
  bit of \<open>x\<close> and \<open>e\<close> that of the last bit of its significand.
\<close>

definition round_even :: "real \<Rightarrow> int" where
  "round_even y =
     (let f = \<lfloor>y\<rfloor>
      in if y - of_int f < 1/2 then f
         else if 1/2 < y - of_int f then f + 1
         else if even f then f else f + 1)"

function floor_log2 :: "real \<Rightarrow> int" where
  "floor_log2 x =
     (if x \<le> 0 then 0
      else if x < 1 then floor_log2 (2 * x) - 1
      else if 2 \<le> x then floor_log2 (x / 2) + 1
      else 0)"
  by pat_completeness auto
termination
proof (relation "measure (\<lambda>x. nat \<bar>\<lfloor>log 2 x\<rfloor>\<bar>)")
  show "wf (measure (\<lambda>x. nat \<bar>\<lfloor>log 2 x\<rfloor>\<bar>))" by simp
next
  fix x :: real
  assume "\<not> x \<le> 0" "x < 1"
  then have "log 2 (2 * x) = log 2 x + 1" "log 2 x < 0" by (simp_all add: log_mult)
  then have "\<lfloor>log 2 (2 * x)\<rfloor> = \<lfloor>log 2 x\<rfloor> + 1" "\<lfloor>log 2 x\<rfloor> < 0"
    by (simp_all add: floor_less_iff)
  then show "(2 * x, x) \<in> measure (\<lambda>x. nat \<bar>\<lfloor>log 2 x\<rfloor>\<bar>)"
    unfolding in_measure by linarith
next
  fix x :: real
  assume "\<not> x \<le> 0" "\<not> x < 1" "2 \<le> x"
  then have "log 2 (x / 2) = log 2 x - 1" "1 \<le> log 2 x" by (simp_all add: log_divide le_log_iff)
  then have "\<lfloor>log 2 (x / 2)\<rfloor> = \<lfloor>log 2 x\<rfloor> - 1" "1 \<le> \<lfloor>log 2 x\<rfloor>"
    by (simp_all add: le_floor_iff)
  then show "(x / 2, x) \<in> measure (\<lambda>x. nat \<bar>\<lfloor>log 2 x\<rfloor>\<bar>)"
    unfolding in_measure by linarith
qed

declare floor_log2.simps [simp del]

definition pow2 :: "int \<Rightarrow> real" where
  "pow2 e = (if 0 \<le> e then 2 ^ nat e else 1 / 2 ^ nat (- e))"

definition double_round :: "real \<Rightarrow> real" where
  "double_round x =
     (if x = 0 then 0
      else let e = floor_log2 \<bar>x\<bar> - 52
           in of_int (round_even (x / pow2 e)) * pow2 e)"

subsection \<open>\<^verbatim>\<open>RingBuffer\<close>\<close>

text \<open>
  \<^verbatim>\<open>
  def __init__(self, state_shape, maxlen):
      self.state_shape = state_shape
      self.maxlen = maxlen
      self.current_idx = 0
      self.reset()
  def reset(self):
      self.data = np.zeros(((self.maxlen,) + self.state_shape))
  def append(self, data):
      self.data = np.roll(self.data, -1, axis=0)
      self.data[self.maxlen - 1] = np.squeeze(data)
  \<close>
  The state shape is the type \<open>'s\<close> of one state, whose all-zero array is \<open>0\<close>.
  \<^verbatim>\<open>np.roll(_, -1, axis=0)\<close> is \<open>rotate1\<close>: slot \<open>i + 1\<close> moves to slot \<open>i\<close> and slot \<open>0\<close>
  to the last slot.
\<close>

record 's RingBuffer =
  ring_maxlen :: int
  ring_current_idx :: int
  ring_data :: "'s list"

definition RingBuffer_reset :: "'s::zero RingBuffer \<Rightarrow> error + 's RingBuffer" where
  "RingBuffer_reset self =
     (case np_zeros (ring_maxlen self) of
        Inl e \<Rightarrow> Inl e
      | Inr zeros \<Rightarrow> Inr (self\<lparr>ring_data := zeros\<rparr>))"

definition RingBuffer_init :: "int \<Rightarrow> error + 's::zero RingBuffer" where
  "RingBuffer_init n =
     RingBuffer_reset \<lparr>ring_maxlen = n, ring_current_idx = 0, ring_data = []\<rparr>"

definition RingBuffer_append :: "'s RingBuffer \<Rightarrow> 's \<Rightarrow> error + 's RingBuffer" where
  "RingBuffer_append self data =
     (case setitem (rotate1 (ring_data self)) (ring_maxlen self - 1) data of
        Inl e \<Rightarrow> Inl e
      | Inr rolled \<Rightarrow> Inr (self\<lparr>ring_data := rolled\<rparr>))"

text \<open>A caller appending the states of a list one after the other.\<close>

fun RingBuffer_appends :: "'s RingBuffer \<Rightarrow> 's list \<Rightarrow> error + 's RingBuffer" where
  "RingBuffer_appends self [] = Inr self"
| "RingBuffer_appends self (s # ss) =
     (case RingBuffer_append self s of
        Inl e \<Rightarrow> Inl e
      | Inr self' \<Rightarrow> RingBuffer_appends self' ss)"

subsection \<open>\<^verbatim>\<open>ReplayBuffer\<close>\<close>

text \<open>
  \<^verbatim>\<open>
  def __init__(self, maxlen, history_length=1, batch_size=32):
      self.initialized = False
      self.maxlen = maxlen
      self.history_length = history_length
      self.batch_size = batch_size
      self.current_idx = 0
      self.current_len = 0
  \<close>
  The four arrays do not exist before the first \<^verbatim>\<open>add\<close>; the record holds empty lists
  then, and \<open>initialized\<close> says whether the attributes exist.
\<close>

record ('s, 'a, 'r) ReplayBuffer =
  initialized :: bool
  maxlen :: int
  history_length :: int
  batch_size :: int
  current_idx :: int
  current_len :: int
  states :: "'s list"
  actions :: "'a list"
  rewards :: "'r list"
  dones :: "bool list"

definition ReplayBuffer_init :: "int \<Rightarrow> int \<Rightarrow> int \<Rightarrow> ('s, 'a, 'r) ReplayBuffer" where
  "ReplayBuffer_init n h b =
     \<lparr>initialized = False, maxlen = n, history_length = h, batch_size = b,
      current_idx = 0, current_len = 0,
      states = [], actions = [], rewards = [], dones = []\<rparr>"

text \<open>
  \<^verbatim>\<open>
  def add(self, state, action, reward, done):
      if not self.initialized:
          self.initialized = True
          state_shape = np.squeeze(state).shape
          self.states = np.empty((self.maxlen,) + state_shape, dtype=state.dtype)
          self.actions = np.empty(self.maxlen, dtype=np.int32)
          self.rewards = np.empty(self.maxlen, dtype=np.float32)
          self.dones = np.empty(self.maxlen, dtype=np.bool)
      self.states[self.current_idx] = np.squeeze(state)
      self.actions[self.current_idx] = action
      self.rewards[self.current_idx] = reward
      self.dones[self.current_idx] = done
      self.current_idx = (self.current_idx + 1) % self.maxlen
      self.current_len = min(self.current_len + 1, self.maxlen)
  \<close>
  \<open>junk i\<close> is the uninitialised content of slot \<open>i\<close> of the four fresh arrays.
\<close>

definition allocate ::
  "(nat \<Rightarrow> 's \<times> 'a \<times> 'r \<times> bool) \<Rightarrow> ('s, 'a, 'r) ReplayBuffer
     \<Rightarrow> error + ('s, 'a, 'r) ReplayBuffer" where
  "allocate junk self =
     (if initialized self then Inr self
      else case np_empty (maxlen self) junk of
        Inl e \<Rightarrow> Inl e
      | Inr cells \<Rightarrow>
          Inr (self\<lparr>initialized := True,
                    states := map fst cells,
                    actions := map (fst \<circ> snd) cells,
                    rewards := map (fst \<circ> snd \<circ> snd) cells,
                    dones := map (snd \<circ> snd \<circ> snd) cells\<rparr>))"

definition ReplayBuffer_add ::
  "(nat \<Rightarrow> 's \<times> 'a \<times> 'r \<times> bool) \<Rightarrow> ('s, 'a, 'r) ReplayBuffer \<Rightarrow> 's \<Rightarrow> 'a \<Rightarrow> 'r \<Rightarrow> bool
     \<Rightarrow> error + ('s, 'a, 'r) ReplayBuffer" where
  "ReplayBuffer_add junk self0 state action reward done =
     (case allocate junk self0 of Inl e \<Rightarrow> Inl e | Inr self \<Rightarrow>
     (case setitem (states self) (current_idx self) state of Inl e \<Rightarrow> Inl e | Inr states' \<Rightarrow>
     (case setitem (actions self) (current_idx self) action of Inl e \<Rightarrow> Inl e | Inr actions' \<Rightarrow>
     (case setitem (rewards self) (current_idx self) reward of Inl e \<Rightarrow> Inl e | Inr rewards' \<Rightarrow>
     (case setitem (dones self) (current_idx self) done of Inl e \<Rightarrow> Inl e | Inr dones' \<Rightarrow>
      if maxlen self = 0 then Inl ZeroDivisionError
      else Inr (self\<lparr>states := states', actions := actions', rewards := rewards', dones := dones',
                      current_idx := (current_idx self + 1) mod maxlen self,
                      current_len := min (current_len self + 1) (maxlen self)\<rparr>))))))"

text \<open>A caller adding the transitions of a list one after the other.\<close>

fun ReplayBuffer_adds ::
  "(nat \<Rightarrow> 's \<times> 'a \<times> 'r \<times> bool) \<Rightarrow> ('s, 'a, 'r) ReplayBuffer \<Rightarrow> ('s \<times> 'a \<times> 'r \<times> bool) list
     \<Rightarrow> error + ('s, 'a, 'r) ReplayBuffer" where
  "ReplayBuffer_adds junk self [] = Inr self"
| "ReplayBuffer_adds junk self ((state, action, reward, done) # ts) =
     (case ReplayBuffer_add junk self state action reward done of
        Inl e \<Rightarrow> Inl e
      | Inr self' \<Rightarrow> ReplayBuffer_adds junk self' ts)"

text \<open>
  \<^verbatim>\<open>
  def _generate_idxs(self):
      start_idxs = []
      end_idxs = []
      while len(start_idxs) < self.batch_size:
          start_idx = np.random.randint(0, self.current_len - self.history_length)
          end_idx = start_idx + self.history_length
          if start_idx in start_idxs:
              continue
          if np.any(self.dones[start_idx: end_idx - 1]):
              continue
          start_idxs.append(start_idx)
          end_idxs.append(end_idx)
      return np.array(start_idxs), np.array(end_idxs)
  \<close>
  The loop may run forever. It consumes one random draw per iteration, so the list of
  draws is its fuel: \<open>None\<close> says that the loop is still running when the draws are used
  up, \<open>Some (Inl e)\<close> that it raised \<open>e\<close>, \<open>Some (Inr _)\<close> that it returned.
  \<^verbatim>\<open>sample\<close> starts with this call and cuts its windows at the indices returned.
\<close>

fun generate_idxs ::
  "('s, 'a, 'r) ReplayBuffer \<Rightarrow> nat list \<Rightarrow> int list \<Rightarrow> int list
     \<Rightarrow> (error + int list \<times> int list) option" where
  "generate_idxs self [] start_idxs end_idxs =
     (if \<not> int (length start_idxs) < batch_size self then Some (Inr (start_idxs, end_idxs))
      else if current_len self - history_length self \<le> 0 then Some (Inl ValueError)
      else None)"
| "generate_idxs self (r # draws) start_idxs end_idxs =
     (if \<not> int (length start_idxs) < batch_size self then Some (Inr (start_idxs, end_idxs))
      else if current_len self - history_length self \<le> 0 then Some (Inl ValueError)
      else
        let start_idx = randint 0 (current_len self - history_length self) r;
            end_idx = start_idx + history_length self
        in if start_idx \<in> set start_idxs then generate_idxs self draws start_idxs end_idxs
           else if \<not> initialized self then Some (Inl AttributeError)
           else if np_any (py_slice (dones self) start_idx (end_idx - 1))
             then generate_idxs self draws start_idxs end_idxs
           else generate_idxs self draws (start_idxs @ [start_idx]) (end_idxs @ [end_idx]))"

subsection \<open>Decay schedules\<close>

text \<open>
  \<^verbatim>\<open>
  def exponential_decay(epsilon_final, stop_exploration):
      epsilon_step = - np.log(epsilon_final) / stop_exploration
      def get_epsilon(step):
          if step <= stop_exploration:
              return np.exp(-epsilon_step * step)
          else:
              return epsilon_final
      return get_epsilon
  \<close>
  The returned closure is the function of the last argument. \<open>np_log\<close> and \<open>np_exp\<close>
  are numpy's logarithm and exponential on floats, parameters of which nothing is
  assumed here; negation is exact.
\<close>

definition exponential_decay ::
  "(real \<Rightarrow> real) \<Rightarrow> (real \<Rightarrow> real) \<Rightarrow> (real \<Rightarrow> real) \<Rightarrow> real \<Rightarrow> real \<Rightarrow> real \<Rightarrow> real" where
  "exponential_decay np_log np_exp rd epsilon_final stop_exploration step =
     (let epsilon_step = rd (- np_log epsilon_final / stop_exploration)
      in if step \<le> stop_exploration then np_exp (rd (- epsilon_step * step))
         else epsilon_final)"

text \<open>
  \<^verbatim>\<open>
  def piecewise_linear_decay(boundaries, values, initial_value=1):
      boundaries = [0] + boundaries
      final_epsilons = [initial_value * value for value in values]
      final_epsilons = [initial_value] + final_epsilons
      decay_steps = [end_step - start_step for start_step, end_step
                     in zip(boundaries[:-1], boundaries[1:])]
      decay_rates = [- (start_e - final_e) / decay_step
                     for start_e, final_e, decay_step
                     in zip(final_epsilons[:-1], final_epsilons[1:], decay_steps)]
      def get_epsilon(x):
          for boundary, x0, m, y0 in zip(boundaries[1:], boundaries[:-1],
                                         decay_rates, final_epsilons):
              if x <= boundary:
                  return m * (x - x0) + y0
          return final_epsilons[-1]
      return get_epsilon
  \<close>
  The division of Python numbers raises ZeroDivisionError on a zero step, when the
  schedule is built.
\<close>

fun decay_rates :: "(real \<Rightarrow> real) \<Rightarrow> (real \<times> real \<times> real) list \<Rightarrow> error + real list" where
  "decay_rates rd [] = Inr []"
| "decay_rates rd ((start_e, final_e, decay_step) # rest) =
     (if decay_step = 0 then Inl ZeroDivisionError
      else case decay_rates rd rest of
             Inl e \<Rightarrow> Inl e
           | Inr rates \<Rightarrow> Inr (rd (- rd (start_e - final_e) / decay_step) # rates))"

fun get_epsilon ::
  "(real \<Rightarrow> real) \<Rightarrow> (real \<times> real \<times> real \<times> real) list \<Rightarrow> real \<Rightarrow> real \<Rightarrow> real" where
  "get_epsilon rd [] outside x = outside"
| "get_epsilon rd ((boundary, x0, m, y0) # segments) outside x =
     (if x \<le> boundary then rd (rd (m * rd (x - x0)) + y0)
      else get_epsilon rd segments outside x)"

definition piecewise_linear_decay ::
  "(real \<Rightarrow> real) \<Rightarrow> real list \<Rightarrow> real list \<Rightarrow> real \<Rightarrow> error + (real \<Rightarrow> real)" where
  "piecewise_linear_decay rd boundaries0 values initial_value =
     (let boundaries = 0 # boundaries0;
          final_epsilons = initial_value # map (\<lambda>value. rd (initial_value * value)) values;
          decay_steps = map (\<lambda>(start_step, end_step). rd (end_step - start_step))
                            (zip (butlast boundaries) (tl boundaries))
      in case decay_rates rd (zip (butlast final_epsilons) (zip (tl final_epsilons) decay_steps)) of
           Inl e \<Rightarrow> Inl e
         | Inr rates \<Rightarrow>
             Inr (get_epsilon rd
                    (zip (tl boundaries) (zip (butlast boundaries) (zip rates final_epsilons)))
                    (last final_epsilons)))"

subsection \<open>\<^verbatim>\<open>egreedy_police\<close>\<close>

text \<open>
  \<^verbatim>\<open>
  def egreedy_police(Q_values, epsilon):
      if np.random.random() <= epsilon:
          num_actions = len(np.squeeze(Q_values))
          return np.random.choice(np.arange(num_actions))
      else:
          return np.argmax(np.squeeze(Q_values))
  \<close>
  \<open>Q_values\<close> is the list of the entries of an array with one value per action (axes of
  length one around it, as in a batch of one, do not change the list). \<open>u\<close> is the float
  of \<open>[0, 1)\<close> that \<^verbatim>\<open>np.random.random()\<close> returns and \<open>c\<close> the entropy that
  \<^verbatim>\<open>np.random.choice\<close> consumes.
  \<^verbatim>\<open>np.squeeze\<close> removes every axis of length one: an array with a single entry becomes
  a zero-dimensional array, on which \<^verbatim>\<open>len\<close> raises TypeError and \<^verbatim>\<open>np.argmax\<close>
  returns \<open>0\<close>. \<^verbatim>\<open>np.random.choice\<close> and \<^verbatim>\<open>np.argmax\<close> raise ValueError on an empty
  array. \<^verbatim>\<open>np.argmax\<close> returns the first index at which the maximum occurs; Q-values
  are numbers of a linear order (no NaN).
\<close>

definition squeezed_len :: "'q list \<Rightarrow> error + nat" where
  "squeezed_len Q_values =
     (if length Q_values = 1 then Inl TypeError else Inr (length Q_values))"

definition random_choice :: "nat \<Rightarrow> nat \<Rightarrow> error + nat" where
  "random_choice num_actions c =
     (if num_actions = 0 then Inl ValueError else Inr (c mod num_actions))"

fun argmax_scan :: "'q::linorder list \<Rightarrow> nat \<Rightarrow> nat \<Rightarrow> 'q \<Rightarrow> nat" where
  "argmax_scan [] i best_i best = best_i"
| "argmax_scan (q # qs) i best_i best =
     (if best < q then argmax_scan qs (Suc i) i q else argmax_scan qs (Suc i) best_i best)"

definition np_argmax :: "'q::linorder list \<Rightarrow> error + nat" where
  "np_argmax Q_values =
     (case Q_values of [] \<Rightarrow> Inl ValueError | q # qs \<Rightarrow> Inr (argmax_scan qs 1 0 q))"

definition egreedy_police :: "'q::linorder list \<Rightarrow> real \<Rightarrow> real \<Rightarrow> nat \<Rightarrow> error + nat" where
  "egreedy_police Q_values epsilon u c =
     (if u \<le> epsilon then
        (case squeezed_len Q_values of
           Inl e \<Rightarrow> Inl e
         | Inr num_actions \<Rightarrow> random_choice num_actions c)
      else np_argmax Q_values)"

subsection \<open>\<^verbatim>\<open>discounted_sum_rewards\<close>\<close>

text \<open>
  \<^verbatim>\<open>
  def discounted_sum_rewards(rewards, gamma=0.99):
      reward_sum = 0
      discounted_rewards = []
      for reward in reversed(rewards):
          reward_sum = reward + gamma * reward_sum
          discounted_rewards.append(reward_sum)
      return discounted_rewards[::-1]
  \<close>
  The loop body is \<open>discounted_loop\<close>, run over the reversed list (the argument
  \<open>rewards\<close> is written \<open>rewards0\<close>, the name being a field of the replay buffer). Only \<open>+\<close>, \<open>*\<close> and
  \<open>0\<close> of the number type are used, and nothing is assumed about them.
\<close>

fun discounted_loop :: "'a::{plus,times} list \<Rightarrow> 'a \<Rightarrow> 'a \<Rightarrow> 'a list \<Rightarrow> 'a list" where
  "discounted_loop [] gamma reward_sum discounted_rewards = discounted_rewards"
| "discounted_loop (reward # rest) gamma reward_sum discounted_rewards =
     (let reward_sum' = reward + gamma * reward_sum
      in discounted_loop rest gamma reward_sum' (discounted_rewards @ [reward_sum']))"

definition discounted_sum_rewards :: "'a::{plus,times,zero} list \<Rightarrow> 'a \<Rightarrow> 'a list" where
  "discounted_sum_rewards rewards0 gamma = rev (discounted_loop (rev rewards0) gamma 0 [])"

section \<open>Notions used to state the properties\<close>

text \<open>
  The returns as the specification words them: \<open>G\<^sub>t = r\<^sub>t + gamma * G\<^sub>t\<^sub>+\<^sub>1\<close>, in forward
  order, with the value \<open>G_n\<close> after the last reward given.
\<close>

fun returns_from :: "'a::{plus,times} list \<Rightarrow> 'a \<Rightarrow> 'a \<Rightarrow> 'a list" where
  "returns_from [] gamma G_n = []"
| "returns_from (r # rs) gamma G_n =
     (r + gamma * (case returns_from rs gamma G_n of [] \<Rightarrow> G_n | G # _ \<Rightarrow> G))
       # returns_from rs gamma G_n"

text \<open>A ring buffer whose window has its \<open>maxlen\<close> slots, with \<open>maxlen\<close> positive.\<close>

definition ring_ok :: "'s RingBuffer \<Rightarrow> bool" where
  "ring_ok self \<longleftrightarrow> 0 < ring_maxlen self \<and> int (length (ring_data self)) = ring_maxlen self"

text \<open>
  Slot \<open>i\<close> of a replay buffer, and the state of a buffer of capacity \<open>m\<close> into which the
  transitions \<open>ts\<close> have been added, the \<open>j\<close>-th of them at slot \<open>j mod m\<close>: of the slots
  written more than once, the latest write is the one that stays.
\<close>

definition cell :: "('s, 'a, 'r) ReplayBuffer \<Rightarrow> nat \<Rightarrow> 's \<times> 'a \<times> 'r \<times> bool" where
  "cell self i = (states self ! i, actions self ! i, rewards self ! i, dones self ! i)"

definition filled ::
  "nat \<Rightarrow> ('s \<times> 'a \<times> 'r \<times> bool) list \<Rightarrow> ('s, 'a, 'r) ReplayBuffer \<Rightarrow> bool" where
  "filled m ts self \<longleftrightarrow>
     initialized self \<and> maxlen self = int m \<and>
     length (states self) = m \<and> length (actions self) = m \<and>
     length (rewards self) = m \<and> length (dones self) = m \<and>
     current_idx self = int (length ts mod m) \<and>
     current_len self = int (min (length ts) m) \<and>
     (\<forall>j < length ts. length ts - j \<le> m \<longrightarrow> cell self (j mod m) = ts ! j)"

text \<open>
  A window \<open>[s, e)\<close> that the sampler accepts, and the start indices of all such windows.
\<close>

definition window_ok :: "('s, 'a, 'r) ReplayBuffer \<Rightarrow> int \<Rightarrow> int \<Rightarrow> bool" where
  "window_ok self s e \<longleftrightarrow>
     e = s + history_length self \<and> 0 \<le> s \<and> s < current_len self - history_length self \<and>
     \<not> np_any (py_slice (dones self) s (e - 1))"

definition admissible_starts :: "('s, 'a, 'r) ReplayBuffer \<Rightarrow> int list" where
  "admissible_starts self =
     filter (\<lambda>s. \<not> np_any (py_slice (dones self) s (s + history_length self - 1)))
       [0 .. current_len self - history_length self - 1]"

text \<open>The index of the maximum, the first one among equal maxima.\<close>

definition first_max :: "'q::linorder list \<Rightarrow> nat \<Rightarrow> bool" where
  "first_max Q i \<longleftrightarrow>
     i < length Q \<and> (\<forall>j < length Q. Q ! j \<le> Q ! i) \<and> (\<forall>j < i. Q ! j < Q ! i)"

text \<open>
  The segments and slopes between consecutive knots \<open>(b\<^sub>0, y\<^sub>0), (b\<^sub>1, y\<^sub>1), \<dots>\<close> of a
  piecewise linear schedule, and the value that the line of the segment from
  \<open>(x\<^sub>0, y\<^sub>0)\<close> to \<open>(x\<^sub>1, y\<^sub>1)\<close> takes at its right end \<open>x\<^sub>1\<close>, as the code computes it:
  slope \<open>- (y\<^sub>0 - y\<^sub>1) / (x\<^sub>1 - x\<^sub>0)\<close>, times \<open>x\<^sub>1 - x\<^sub>0\<close>, plus \<open>y\<^sub>0\<close>.
\<close>

definition segment_end :: "(real \<Rightarrow> real) \<Rightarrow> real \<Rightarrow> real \<Rightarrow> real \<Rightarrow> real \<Rightarrow> real" where
  "segment_end rd x0 x1 y0 y1 =
     rd (rd (rd (- rd (y0 - y1) / rd (x1 - x0)) * rd (x1 - x0)) + y0)"

fun segments_of ::
  "(real \<Rightarrow> real) \<Rightarrow> real \<Rightarrow> real list \<Rightarrow> real \<Rightarrow> real list
     \<Rightarrow> (real \<times> real \<times> real \<times> real) list" where
  "segments_of rd b0 (b1 # bs) y0 (y1 # ys) =
     (b1, b0, rd (- rd (y0 - y1) / rd (b1 - b0)), y0) # segments_of rd b1 bs y1 ys"
| "segments_of rd b0 bs y0 ys = []"

fun rates_of :: "(real \<Rightarrow> real) \<Rightarrow> real \<Rightarrow> real list \<Rightarrow> real \<Rightarrow> real list \<Rightarrow> real list" where
  "rates_of rd b0 (b1 # bs) y0 (y1 # ys) =
     rd (- rd (y0 - y1) / rd (b1 - b0)) # rates_of rd b1 bs y1 ys"
| "rates_of rd b0 bs y0 ys = []"

text \<open>
  Example buffers. \<open>episode_buffer\<close> is the buffer of capacity 10 with history length 3
  after ten transitions, the one at index 4 ending an episode; \<open>short_buffer\<close> holds two
  transitions, fewer than its history length; \<open>blocked_buffer\<close> has an episode end
  inside every window.
\<close>

definition episode_buffer :: "(nat, nat, nat) ReplayBuffer" where
  "episode_buffer =
     \<lparr>initialized = True, maxlen = 10, history_length = 3, batch_size = 2,
      current_idx = 0, current_len = 10,
      states = [0, 1, 2, 3, 4, 5, 6, 7, 8, 9], actions = [0, 1, 0, 1, 0, 1, 0, 1, 0, 1],
      rewards = [0, 0, 0, 0, 1, 0, 0, 0, 0, 0],
      dones = [False, False, False, False, True, False, False, False, False, False]\<rparr>"

definition short_buffer :: "(nat, nat, nat) ReplayBuffer" where
  "short_buffer =
     \<lparr>initialized = True, maxlen = 4, history_length = 3, batch_size = 1,
      current_idx = 2, current_len = 2,
      states = [0, 1, 0, 0], actions = [0, 1, 0, 0], rewards = [0, 0, 0, 0],
      dones = [False, False, False, False]\<rparr>"

definition blocked_buffer :: "(nat, nat, nat) ReplayBuffer" where
  "blocked_buffer =
     \<lparr>initialized = True, maxlen = 4, history_length = 2, batch_size = 1,
      current_idx = 0, current_len = 4,
      states = [0, 1, 2, 3], actions = [0, 1, 0, 1], rewards = [1, 1, 1, 1],
      dones = [True, True, True, True]\<rparr>"

section \<open>The rolling window of \<^verbatim>\<open>RingBuffer\<close>\<close>

lemma setitem_nat: "k < length xs \<Longrightarrow> setitem xs (int k) v = Inr (xs[k := v])"
  by (simp add: setitem_def)

lemma RingBuffer_init_ok:
  "0 < n \<Longrightarrow> \<exists>self. RingBuffer_init n = Inr self \<and> ring_ok self \<and>
     ring_data self = replicate (nat n) 0"
  by (simp add: RingBuffer_init_def RingBuffer_reset_def np_zeros_def ring_ok_def)

lemma RingBuffer_append_shift:
  assumes "ring_ok self"
  shows "RingBuffer_append self s = Inr (self\<lparr>ring_data := tl (ring_data self) @ [s]\<rparr>)"
proof -
  from assms obtain x xs where d: "ring_data self = x # xs"
    by (cases "ring_data self") (auto simp: ring_ok_def)
  with assms have "ring_maxlen self - 1 = int (length xs)"
    by (simp add: ring_ok_def)
  with d show ?thesis
    by (simp add: RingBuffer_append_def setitem_nat)
qed

lemma ring_ok_append:
  "ring_ok self \<Longrightarrow> ring_ok (self\<lparr>ring_data := tl (ring_data self) @ [s]\<rparr>)"
  by (cases "ring_data self") (auto simp: ring_ok_def)

lemma RingBuffer_appends_drop:
  "ring_ok self \<Longrightarrow> length ss \<le> length (ring_data self) \<Longrightarrow>
   RingBuffer_appends self ss =
     Inr (self\<lparr>ring_data := drop (length ss) (ring_data self) @ ss\<rparr>)"
proof (induction ss arbitrary: self)
  case Nil
  then show ?case by simp
next
  case (Cons s ss)
  let ?self' = "self\<lparr>ring_data := tl (ring_data self) @ [s]\<rparr>"
  have ok: "ring_ok ?self'" using Cons.prems(1) by (rule ring_ok_append)
  have len: "length ss \<le> length (ring_data ?self')" using Cons.prems(2) by simp
  have "RingBuffer_appends self (s # ss) = RingBuffer_appends ?self' ss"
    by (simp add: RingBuffer_append_shift[OF Cons.prems(1)])
  also have "\<dots> = Inr (?self'\<lparr>ring_data := drop (length ss) (ring_data ?self') @ ss\<rparr>)"
    using Cons.IH[OF ok len] .
  also have "drop (length ss) (ring_data ?self') @ ss =
      drop (length (s # ss)) (ring_data self) @ s # ss"
    using Cons.prems(2) by (cases "ring_data self") (auto simp: drop_Cons')
  finally show ?case by simp
qed

lemma RingBuffer_reset_zeros:
  "0 \<le> ring_maxlen self \<Longrightarrow>
    RingBuffer_reset self = Inr (self\<lparr>ring_data := replicate (nat (ring_maxlen self)) 0\<rparr>)"
  by (simp add: RingBuffer_reset_def np_zeros_def)

text \<open>
  C9, as stated, fails. A fresh window of two slots to which the distinct states \<open>1\<close> and
  \<open>2\<close> are appended holds \<open>[1, 2]\<close>: the oldest appended state is in slot \<open>0\<close>, not evicted.
\<close>

theorem RingBuffer_oldest_not_evicted_counterexample:
  "RingBuffer_init 2 = Inr \<lparr>ring_maxlen = 2, ring_current_idx = 0, ring_data = [0, 0 :: int]\<rparr> \<and>
   RingBuffer_appends \<lparr>ring_maxlen = 2, ring_current_idx = 0, ring_data = [0, 0 :: int]\<rparr> [1, 2] =
     Inr \<lparr>ring_maxlen = 2, ring_current_idx = 0, ring_data = [1, 2]\<rparr> \<and>
   (1 :: int) \<in> set [1, 2]"
  by (simp add: RingBuffer_init_def RingBuffer_reset_def np_zeros_def RingBuffer_append_def
      setitem_def numeral_2_eq_2)

text \<open>
  C9, amended. For every ring buffer of size \<open>maxlen \<ge> 1\<close>: each append moves every
  stored state back by one slot, drops the state of slot \<open>0\<close> and puts the new state in
  slot \<open>maxlen - 1\<close>; after \<open>maxlen\<close> appends of \<open>s\<^sub>1, \<dots>, s\<^sub>m\<close> the window is exactly
  \<open>[s\<^sub>1, \<dots>, s\<^sub>m]\<close>, so everything stored before is evicted, the newest state is in
  slot \<open>maxlen - 1\<close> and the oldest appended state is in slot \<open>0\<close>; reset restores the
  all-zero window.
\<close>

theorem RingBuffer_window:
  assumes "ring_ok self"
  shows "RingBuffer_append self s = Inr (self\<lparr>ring_data := tl (ring_data self) @ [s]\<rparr>) \<and>
         (int (length ss) = ring_maxlen self \<longrightarrow>
            RingBuffer_appends self ss = Inr (self\<lparr>ring_data := ss\<rparr>) \<and>
            ss ! nat (ring_maxlen self - 1) = last ss \<and> ss ! 0 = hd ss) \<and>
         RingBuffer_reset self =
           Inr (self\<lparr>ring_data := replicate (nat (ring_maxlen self)) 0\<rparr>)"
proof -
  have "RingBuffer_appends self ss = Inr (self\<lparr>ring_data := ss\<rparr>) \<and>
        ss ! nat (ring_maxlen self - 1) = last ss \<and> ss ! 0 = hd ss"
    if l: "int (length ss) = ring_maxlen self"
  proof -
    from l assms have eq: "length ss = length (ring_data self)" and ne: "ss \<noteq> []"
      by (auto simp: ring_ok_def)
    from RingBuffer_appends_drop[OF assms, of ss] eq
    have "RingBuffer_appends self ss = Inr (self\<lparr>ring_data := ss\<rparr>)" by simp
    moreover have "nat (ring_maxlen self - 1) = length ss - 1" using l by simp
    ultimately show ?thesis using ne by (simp add: last_conv_nth hd_conv_nth)
  qed
  moreover have "0 \<le> ring_maxlen self" using assms by (simp add: ring_ok_def)
  ultimately show ?thesis
    using RingBuffer_append_shift[OF assms] RingBuffer_reset_zeros by blast
qed

theorem RingBuffer_window_witness:
  "RingBuffer_append \<lparr>ring_maxlen = 3, ring_current_idx = 0, ring_data = [7, 8, 9 :: int]\<rparr> 4 =
     Inr \<lparr>ring_maxlen = 3, ring_current_idx = 0, ring_data = [8, 9, 4]\<rparr> \<and>
   RingBuffer_appends \<lparr>ring_maxlen = 3, ring_current_idx = 0, ring_data = [7, 8, 9 :: int]\<rparr> [4, 5, 6] =
     Inr \<lparr>ring_maxlen = 3, ring_current_idx = 0, ring_data = [4, 5, 6]\<rparr> \<and>
   RingBuffer_reset \<lparr>ring_maxlen = 3, ring_current_idx = 0, ring_data = [7, 8, 9 :: int]\<rparr> =
     Inr \<lparr>ring_maxlen = 3, ring_current_idx = 0, ring_data = [0, 0, 0]\<rparr>"
  using RingBuffer_window
    [of "\<lparr>ring_maxlen = 3, ring_current_idx = 0, ring_data = [7, 8, 9 :: int]\<rparr>" 4 "[4, 5, 6]"]
  by (simp add: ring_ok_def numeral_3_eq_3 del: RingBuffer_appends.simps)

section \<open>Circular writes of \<^verbatim>\<open>ReplayBuffer.add\<close>\<close>

lemma mod_neq: "j < k \<Longrightarrow> k - j < n \<Longrightarrow> j mod n \<noteq> k mod (n::nat)"
proof
  assume "j < k" "k - j < n" "j mod n = k mod n"
  then have "n dvd k - j" using mod_eq_dvd_iff_nat[of j k n] by simp
  with \<open>j < k\<close> have "n \<le> k - j" by (simp add: dvd_imp_le)
  with \<open>k - j < n\<close> show False by simp
qed

lemma allocate_init:
  "allocate junk (ReplayBuffer_init (int m) h b) = Inr self \<Longrightarrow> filled m [] self"
  by (auto simp: allocate_def ReplayBuffer_init_def np_empty_def filled_def)

lemma allocate_init_ok:
  "\<exists>self. allocate junk (ReplayBuffer_init (int m) h b) = Inr self"
  by (auto simp: allocate_def ReplayBuffer_init_def np_empty_def filled_def)

lemma add_allocated:
  "allocate junk self0 = Inr self \<Longrightarrow> initialized self \<Longrightarrow>
   ReplayBuffer_add junk self0 s a r d = ReplayBuffer_add junk self s a r d"
  by (simp add: ReplayBuffer_add_def allocate_def)

lemma add_filled:
  assumes m: "0 < m" and f: "filled m ts self"
  shows "\<exists>self'. ReplayBuffer_add junk self s a r d = Inr self' \<and>
           filled m (ts @ [(s, a, r, d)]) self'"
proof -
  let ?k = "length ts"
  let ?i = "?k mod m"
  have i: "?i < m" using m by simp
  have al: "allocate junk self = Inr self" using f by (simp add: allocate_def filled_def)
  define self' where "self' = self\<lparr>states := (states self)[?i := s],
       actions := (actions self)[?i := a],
       rewards := (rewards self)[?i := r], dones := (dones self)[?i := d],
       current_idx := (current_idx self + 1) mod maxlen self,
       current_len := min (current_len self + 1) (maxlen self)\<rparr>"
  have add: "ReplayBuffer_add junk self s a r d = Inr self'"
    using f i m by (simp add: ReplayBuffer_add_def al setitem_nat filled_def self'_def)
  have "(int ?k mod int m + 1) mod int m = (int ?k + 1) mod int m"
    by (simp add: mod_add_left_eq)
  then have idx: "current_idx self' = int (Suc ?k mod m)"
    using f by (simp add: self'_def filled_def zmod_int add.commute)
  have len: "current_len self' = int (min (Suc ?k) m)"
    using f by (simp add: self'_def filled_def min_def)
  have cells: "cell self' (j mod m) = (ts @ [(s, a, r, d)]) ! j"
    if j: "j < Suc ?k" "Suc ?k - j \<le> m" for j
  proof (cases "j = ?k")
    case True
    then show ?thesis using f i by (simp add: self'_def cell_def filled_def)
  next
    case False
    with j have jk: "j < ?k" "?k - j < m" "?k - j \<le> m" by auto
    then have ne: "j mod m \<noteq> ?i" by (simp add: mod_neq)
    have "cell self' (j mod m) = cell self (j mod m)"
      using ne by (simp add: self'_def cell_def)
    also have "\<dots> = ts ! j" using f jk by (simp add: filled_def)
    finally show ?thesis using jk by (simp add: nth_append)
  qed
  have "filled m (ts @ [(s, a, r, d)]) self'"
    unfolding filled_def using f idx len cells
    by (simp add: filled_def self'_def)
  with add show ?thesis by blast
qed

lemma adds_filled:
  "0 < m \<Longrightarrow> filled m ts self \<Longrightarrow>
   \<exists>self'. ReplayBuffer_adds junk self us = Inr self' \<and> filled m (ts @ us) self'"
proof (induction us arbitrary: ts self)
  case Nil
  then show ?case by simp
next
  case (Cons u us)
  obtain s a r d where u: "u = (s, a, r, d)" by (cases u) auto
  from add_filled[OF Cons.prems, of junk s a r d] obtain self1
    where 1: "ReplayBuffer_add junk self s a r d = Inr self1"
      "filled m (ts @ [(s, a, r, d)]) self1"
    by blast
  from Cons.IH[OF Cons.prems(1) 1(2)] obtain self2
    where 2: "ReplayBuffer_adds junk self1 us = Inr self2"
      "filled m ((ts @ [(s, a, r, d)]) @ us) self2"
    by blast
  show ?case using 1 2 u by simp
qed

lemma adds_init_filled:
  assumes "0 < m" "us \<noteq> []"
  shows "\<exists>self'. ReplayBuffer_adds junk (ReplayBuffer_init (int m) h b) us = Inr self' \<and>
           filled m us self'"
proof -
  obtain self1 where a: "allocate junk (ReplayBuffer_init (int m) h b) = Inr self1"
    using allocate_init_ok by blast
  then have f: "filled m [] self1" by (rule allocate_init)
  then have i: "initialized self1" by (simp add: filled_def)
  obtain u rest where us: "us = u # rest" using assms(2) by (cases us) auto
  obtain s c r d where u: "u = (s, c, r, d)" by (cases u) auto
  have "ReplayBuffer_adds junk (ReplayBuffer_init (int m) h b) us =
        ReplayBuffer_adds junk self1 us"
    by (simp add: us u add_allocated[OF a i])
  with adds_filled[OF assms(1) f, of junk us] show ?thesis by simp
qed

text \<open>
  C8. For a buffer constructed with capacity \<open>maxlen \<ge> 1\<close>, any \<open>k\<close> calls of \<open>add\<close> all
  return, and after them the capacity is still \<open>maxlen\<close>, \<open>current_idx = k mod maxlen\<close> and
  \<open>current_len = min k maxlen\<close>; each of the last \<open>maxlen\<close> transitions, the \<open>j\<close>-th one, is
  in slot \<open>j mod maxlen\<close>, so that once the buffer is full a write replaces the oldest
  transition. (With \<open>maxlen \<le> 0\<close> no call of \<open>add\<close> returns.)
\<close>

theorem ReplayBuffer_add_circular:
  assumes "0 < n"
  shows "\<exists>self. ReplayBuffer_adds junk (ReplayBuffer_init n h b) ts = Inr self \<and>
           maxlen self = n \<and>
           current_idx self = int (length ts) mod n \<and>
           current_len self = min (int (length ts)) n \<and>
           (\<forall>j < length ts. int (length ts - j) \<le> n \<longrightarrow>
               (states self ! (j mod nat n), actions self ! (j mod nat n),
                rewards self ! (j mod nat n), dones self ! (j mod nat n)) = ts ! j)"
proof (cases "ts = []")
  case True
  then show ?thesis using assms by (simp add: ReplayBuffer_init_def)
next
  case False
  from assms have m: "0 < nat n" "int (nat n) = n" by auto
  from adds_init_filled[OF m(1) False, of junk h b] obtain self
    where "ReplayBuffer_adds junk (ReplayBuffer_init n h b) ts = Inr self"
      "filled (nat n) ts self"
    unfolding m(2) by blast
  then show ?thesis using m
    by (auto simp: filled_def cell_def zmod_int simp flip: of_nat_Suc)
qed

theorem ReplayBuffer_add_circular_witness:
  "ReplayBuffer_adds (\<lambda>i. (0 :: nat, 0 :: nat, 0 :: nat, True)) (ReplayBuffer_init 3 1 1)
     [(1, 0, 0, False), (2, 1, 0, True), (3, 0, 1, False), (4, 1, 1, False)] =
   Inr \<lparr>initialized = True, maxlen = 3, history_length = 1, batch_size = 1,
        current_idx = 1, current_len = 3,
        states = [4, 2, 3], actions = [1, 1, 0], rewards = [1, 0, 1],
        dones = [False, True, False]\<rparr>"
proof -
  have run: "ReplayBuffer_adds (\<lambda>i. (0 :: nat, 0 :: nat, 0 :: nat, True)) (ReplayBuffer_init 3 1 1)
     [(1, 0, 0, False), (2, 1, 0, True), (3, 0, 1, False), (4, 1, 1, False)] =
   Inr \<lparr>initialized = True, maxlen = 3, history_length = 1, batch_size = 1,
        current_idx = 1, current_len = 3,
        states = [4, 2, 3], actions = [1, 1, 0], rewards = [1, 0, 1],
        dones = [False, True, False]\<rparr>"
    by (simp add: ReplayBuffer_init_def ReplayBuffer_add_def allocate_def np_empty_def
        setitem_def eval_nat_numeral)
  have "0 < (3 :: int)" by simp
  from ReplayBuffer_add_circular [OF this, of "\<lambda>i. (0 :: nat, 0 :: nat, 0 :: nat, True)" 1 1
      "[(1, 0, 0, False), (2, 1, 0, True), (3, 0, 1, False), (4, 1, 1, False)]"]
  obtain self where "ReplayBuffer_adds (\<lambda>i. (0 :: nat, 0 :: nat, 0 :: nat, True))
      (ReplayBuffer_init 3 1 1)
      [(1, 0, 0, False), (2, 1, 0, True), (3, 0, 1, False), (4, 1, 1, False)] = Inr self"
    and "current_idx self = int (length [(1 :: nat, 0 :: nat, 0 :: nat, False), (2, 1, 0, True),
      (3, 0, 1, False), (4, 1, 1, False)]) mod 3"
    by blast
  with run show ?thesis by simp
qed

section \<open>The windows drawn by \<^verbatim>\<open>ReplayBuffer._generate_idxs\<close>\<close>

lemma randint_range:
  "low < high \<Longrightarrow> low \<le> randint low high r \<and> randint low high r < high"
proof -
  assume "low < high"
  then have "0 \<le> int r mod (high - low)" "int r mod (high - low) < high - low"
    by simp_all
  then show ?thesis unfolding randint_def by linarith
qed

lemma randint_id: "0 \<le> s \<Longrightarrow> s < n \<Longrightarrow> randint 0 n (nat s) = s"
  by (simp add: randint_def)

text \<open>
  The loop invariant: every pair of the two accumulators is an accepted window, the
  starts are distinct, and there are never more of them than the batch size.
\<close>

lemma generate_idxs_inv:
  "generate_idxs self draws ss es = Some (Inr (ss', es')) \<Longrightarrow>
   list_all2 (window_ok self) ss es \<Longrightarrow> distinct ss \<Longrightarrow>
   int (length ss) \<le> max 0 (batch_size self) \<Longrightarrow>
   list_all2 (window_ok self) ss' es' \<and> distinct ss' \<and>
   int (length ss') = max 0 (batch_size self)"
proof (induction draws arbitrary: ss es)
  case Nil
  then show ?case by (auto split: if_splits)
next
  case (Cons r draws)
  show ?case
  proof (cases "int (length ss) < batch_size self")
    case False
    with Cons.prems show ?thesis by auto
  next
    case lt: True
    show ?thesis
    proof (cases "current_len self - history_length self \<le> 0")
      case True
      with Cons.prems lt show ?thesis by simp
    next
      case pos: False
      let ?s = "randint 0 (current_len self - history_length self) r"
      let ?e = "?s + history_length self"
      from pos have rng: "0 \<le> ?s" "?s < current_len self - history_length self"
        using randint_range[of 0 "current_len self - history_length self" r] by auto
      show ?thesis
      proof (cases "?s \<in> set ss \<or> np_any (py_slice (dones self) ?s (?e - 1))")
        case True
        with Cons.prems(1) lt pos
        have "generate_idxs self draws ss es = Some (Inr (ss', es'))"
          by (auto simp: Let_def split: if_splits)
        from Cons.IH[OF this Cons.prems(2,3,4)] show ?thesis .
      next
        case False
        with Cons.prems(1) lt pos
        have run: "generate_idxs self draws (ss @ [?s]) (es @ [?e]) = Some (Inr (ss', es'))"
          by (auto simp: Let_def split: if_splits)
        have w: "window_ok self ?s ?e" using False rng by (simp add: window_ok_def)
        have 1: "list_all2 (window_ok self) (ss @ [?s]) (es @ [?e])"
          using Cons.prems(2) w by (simp add: list_all2_appendI)
        have 2: "distinct (ss @ [?s])" using Cons.prems(3) False by simp
        have 3: "int (length (ss @ [?s])) \<le> max 0 (batch_size self)" using lt by simp
        from Cons.IH[OF run 1 2 3] show ?thesis .
      qed
    qed
  qed
qed

lemma slice_bound_nonneg: "0 \<le> i \<Longrightarrow> slice_bound n i = min n (nat i)"
  by (simp add: slice_bound_def)

lemma py_slice_nth_mem:
  assumes "0 \<le> s" "s \<le> i" "i < j" "nat i < length xs"
  shows "xs ! nat i \<in> set (py_slice xs s j)"
proof -
  let ?a = "slice_bound (length xs) s" and ?b = "slice_bound (length xs) j"
  from assms have n: "nat s \<le> nat i" "nat i < nat j" by simp_all
  from assms have a: "?a = nat s" by (simp add: slice_bound_nonneg)
  from assms have b: "?b = min (length xs) (nat j)" by (simp add: slice_bound_nonneg)
  have k: "nat i - nat s < ?b - ?a" using n assms(4) unfolding a b by arith
  have "length (take (?b - ?a) (drop ?a xs)) = ?b - ?a"
    unfolding a b by simp
  with k have len: "nat i - nat s < length (take (?b - ?a) (drop ?a xs))"
    by simp
  have "nat s \<le> length xs" using n assms(4) by arith
  then have "drop (nat s) xs ! (nat i - nat s) = xs ! (nat s + (nat i - nat s))"
    by (rule nth_drop)
  also have "nat s + (nat i - nat s) = nat i" using n by arith
  finally have "take (?b - ?a) (drop ?a xs) ! (nat i - nat s) = xs ! nat i"
    using k unfolding a by simp
  with nth_mem[OF len] show ?thesis
    unfolding py_slice_def Let_def by simp
qed

lemma window_ok_interior:
  assumes "window_ok self s e" "s \<le> i" "i < e - 1" "i < int (length (dones self))"
  shows "\<not> dones self ! nat i"
proof
  assume d: "dones self ! nat i"
  from assms have s0: "0 \<le> s" by (simp add: window_ok_def)
  with assms have "nat i < length (dones self)" by simp
  from py_slice_nth_mem[OF s0 assms(2,3) this] d
  have "True \<in> set (py_slice (dones self) s (e - 1))" by simp
  with assms(1) show False by (simp add: window_ok_def np_any_def)
qed

text \<open>The loop cannot leave while fewer windows are acceptable than the batch needs.\<close>

lemma generate_idxs_hang:
  assumes "initialized self" "history_length self < current_len self"
    and "int (length (admissible_starts self)) < batch_size self"
  shows "set ss \<subseteq> set (admissible_starts self) \<Longrightarrow> distinct ss \<Longrightarrow>
         generate_idxs self draws ss es = None"
proof (induction draws arbitrary: ss es)
  case Nil
  have "length ss = card (set ss)" using Nil.prems(2) by (simp add: distinct_card)
  also have "\<dots> \<le> card (set (admissible_starts self))"
    using Nil.prems(1) by (simp add: card_mono)
  also have "\<dots> \<le> length (admissible_starts self)" by (rule card_length)
  finally have "int (length ss) < batch_size self" using assms(3) by linarith
  then show ?case using assms(2) by simp
next
  case (Cons r draws)
  have "length ss = card (set ss)" using Cons.prems(2) by (simp add: distinct_card)
  also have "\<dots> \<le> card (set (admissible_starts self))"
    using Cons.prems(1) by (simp add: card_mono)
  also have "\<dots> \<le> length (admissible_starts self)" by (rule card_length)
  finally have lt: "int (length ss) < batch_size self" using assms(3) by linarith
  let ?s = "randint 0 (current_len self - history_length self) r"
  let ?e = "?s + history_length self"
  from assms(2) have rng: "0 \<le> ?s" "?s < current_len self - history_length self"
    using randint_range[of 0 "current_len self - history_length self" r] by auto
  show ?case
  proof (cases "?s \<in> set ss \<or> np_any (py_slice (dones self) ?s (?e - 1))")
    case True
    then have "generate_idxs self (r # draws) ss es = generate_idxs self draws ss es"
      using lt assms(1,2) by (auto simp: Let_def)
    with Cons.IH[OF Cons.prems] show ?thesis by simp
  next
    case False
    then have "generate_idxs self (r # draws) ss es =
        generate_idxs self draws (ss @ [?s]) (es @ [?e])"
      using lt assms(1,2) by (auto simp: Let_def)
    moreover have "?s \<in> set (admissible_starts self)"
      using False rng by (simp add: admissible_starts_def)
    then have "set (ss @ [?s]) \<subseteq> set (admissible_starts self)" "distinct (ss @ [?s])"
      using Cons.prems False by auto
    from Cons.IH[OF this] have "generate_idxs self draws (ss @ [?s]) (es @ [?e]) = None" .
    ultimately show ?thesis by simp
  qed
qed

lemma generate_idxs_ValueError:
  "0 < batch_size self \<Longrightarrow> current_len self \<le> history_length self \<Longrightarrow>
   generate_idxs self draws [] [] = Some (Inl ValueError)"
  by (cases draws) simp_all

text \<open>
  Conversely the loop can return as soon as enough windows are acceptable: the draws
  that hit the first of them one after the other make it return.
\<close>

lemma generate_idxs_accepts:
  assumes "initialized self"
  shows "distinct (ss @ todo) \<Longrightarrow> set todo \<subseteq> set (admissible_starts self) \<Longrightarrow>
         int (length ss + length todo) = max (int (length ss)) (batch_size self) \<Longrightarrow>
         generate_idxs self (map nat todo) ss es =
           Some (Inr (ss @ todo, es @ map (\<lambda>s. s + history_length self) todo))"
proof (induction todo arbitrary: ss es)
  case Nil
  then show ?case by simp
next
  case (Cons t todo)
  from Cons.prems(3) have lt: "int (length ss) < batch_size self" by simp
  from Cons.prems(2) have t: "0 \<le> t" "t < current_len self - history_length self"
    "\<not> np_any (py_slice (dones self) t (t + history_length self - 1))"
    by (auto simp: admissible_starts_def)
  then have r: "randint 0 (current_len self - history_length self) (nat t) = t"
    by (simp add: randint_id)
  from Cons.prems(1) have nin: "t \<notin> set ss" by auto
  have step: "generate_idxs self (map nat (t # todo)) ss es =
       generate_idxs self (map nat todo) (ss @ [t]) (es @ [t + history_length self])"
    using lt t r nin assms by (simp add: Let_def)
  have 1: "distinct ((ss @ [t]) @ todo)" using Cons.prems(1) by simp
  have 2: "set todo \<subseteq> set (admissible_starts self)" using Cons.prems(2) by simp
  have 3: "int (length (ss @ [t]) + length todo) =
      max (int (length (ss @ [t]))) (batch_size self)"
    using Cons.prems(3) lt by simp
  from Cons.IH[OF 1 2 3] step show ?case by simp
qed

lemma generate_idxs_can_return:
  assumes "initialized self" "batch_size self \<le> int (length (admissible_starts self))"
  shows "\<exists>draws ss es. generate_idxs self draws [] [] = Some (Inr (ss, es))"
proof -
  let ?todo = "take (nat (batch_size self)) (admissible_starts self)"
  have d: "distinct (admissible_starts self)" by (simp add: admissible_starts_def)
  have 1: "distinct ([] @ ?todo)" using d by simp
  have 2: "set ?todo \<subseteq> set (admissible_starts self)" by (rule set_take_subset)
  have 3: "int (length ([]::int list) + length ?todo) =
      max (int (length ([]::int list))) (batch_size self)"
    using assms(2) by auto
  from generate_idxs_accepts[OF assms(1) 1 2 3] show ?thesis by blast
qed

text \<open>
  C1. Whenever the sampler returns, its two index lists pair up into the windows
  \<open>[start, start + history_length)\<close>, and no index strictly inside a window (every index
  of the window but the final one, \<open>end - 1\<close>) carries \<open>done = true\<close>.
\<close>

theorem generate_idxs_no_internal_done:
  assumes "generate_idxs self draws [] [] = Some (Inr (start_idxs, end_idxs))"
  shows "length end_idxs = length start_idxs \<and>
         (\<forall>k < length start_idxs.
            end_idxs ! k = start_idxs ! k + history_length self \<and>
            (\<forall>i. start_idxs ! k \<le> i \<and> i < end_idxs ! k - 1 \<and> i < int (length (dones self))
                 \<longrightarrow> \<not> dones self ! nat i))"
proof -
  from generate_idxs_inv[OF assms] have w: "list_all2 (window_ok self) start_idxs end_idxs"
    by simp
  then have len: "length end_idxs = length start_idxs" by (simp add: list_all2_lengthD)
  have "end_idxs ! k = start_idxs ! k + history_length self \<and>
        (\<forall>i. start_idxs ! k \<le> i \<and> i < end_idxs ! k - 1 \<and> i < int (length (dones self))
             \<longrightarrow> \<not> dones self ! nat i)" if "k < length start_idxs" for k
  proof -
    from w that have ok: "window_ok self (start_idxs ! k) (end_idxs ! k)"
      by (simp add: list_all2_nthD)
    then show ?thesis using window_ok_interior[OF ok] by (auto simp: window_ok_def)
  qed
  with len show ?thesis by blast
qed

theorem generate_idxs_no_internal_done_witness:
  "generate_idxs episode_buffer [0, 0, 3, 4, 5, 6] [] [] = Some (Inr ([0, 5], [3, 8])) \<and>
   \<not> dones episode_buffer ! nat 0 \<and> \<not> dones episode_buffer ! nat 1 \<and>
   \<not> dones episode_buffer ! nat 5 \<and> \<not> dones episode_buffer ! nat 6"
proof -
  have run: "generate_idxs episode_buffer [0, 0, 3, 4, 5, 6] [] [] =
      Some (Inr ([0, 5], [3, 8]))"
    by (simp add: episode_buffer_def randint_def np_any_def py_slice_def slice_bound_def)
  from generate_idxs_no_internal_done[OF run]
  have w: "\<forall>k < length [0, 5 :: int]. \<forall>i. [0, 5] ! k \<le> i \<and> i < [3, 8] ! k - 1 \<and>
      i < int (length (dones episode_buffer)) \<longrightarrow> \<not> dones episode_buffer ! nat i"
    by blast
  have l: "int (length (dones episode_buffer)) = 10" by (simp add: episode_buffer_def)
  from w[rule_format, of 0 0] w[rule_format, of 0 1] w[rule_format, of 1 5]
    w[rule_format, of 1 6] l run
  show ?thesis by simp
qed

text \<open>
  C2. Whenever the sampler returns, the batch holds \<open>batch_size\<close> start indices (none for
  a batch size below \<open>0\<close>), pairwise distinct, each in \<open>[0, current_len - history_length)\<close>.
  This holds for every batch size, in particular for
  \<open>batch_size \<le> current_len - history_length\<close>.
\<close>

theorem generate_idxs_distinct_starts:
  assumes "generate_idxs self draws [] [] = Some (Inr (start_idxs, end_idxs))"
  shows "int (length start_idxs) = max 0 (batch_size self) \<and> distinct start_idxs \<and>
         (\<forall>s \<in> set start_idxs. 0 \<le> s \<and> s < current_len self - history_length self)"
proof -
  from generate_idxs_inv[OF assms]
  have w: "list_all2 (window_ok self) start_idxs end_idxs" and d: "distinct start_idxs"
    and l: "int (length start_idxs) = max 0 (batch_size self)"
    by simp_all
  have "0 \<le> s \<and> s < current_len self - history_length self" if "s \<in> set start_idxs" for s
  proof -
    from that obtain k where k: "k < length start_idxs" "start_idxs ! k = s"
      by (auto simp: in_set_conv_nth)
    with w have "window_ok self s (end_idxs ! k)" by (auto dest: list_all2_nthD)
    then show ?thesis by (simp add: window_ok_def)
  qed
  with d l show ?thesis by blast
qed

theorem generate_idxs_distinct_starts_witness:
  "batch_size episode_buffer \<le> current_len episode_buffer - history_length episode_buffer \<and>
   generate_idxs episode_buffer [2, 9, 16, 1] [] [] = Some (Inr ([2, 1], [5, 4])) \<and>
   int (length [2, 1 :: int]) = batch_size episode_buffer \<and> distinct [2, 1 :: int] \<and>
   (1 :: int) < current_len episode_buffer - history_length episode_buffer \<and>
   (2 :: int) < current_len episode_buffer - history_length episode_buffer"
proof -
  have run: "generate_idxs episode_buffer [2, 9, 16, 1] [] [] = Some (Inr ([2, 1], [5, 4]))"
    by (simp add: episode_buffer_def randint_def np_any_def py_slice_def slice_bound_def)
  from generate_idxs_distinct_starts[OF run] run
  show ?thesis by (simp add: episode_buffer_def)
qed

text \<open>
  C4, as stated, fails: a buffer that holds two transitions with history length 3 does
  not hang, \<^verbatim>\<open>randint\<close> raises ValueError in the first iteration.
\<close>

theorem generate_idxs_short_buffer_counterexample:
  "current_len short_buffer \<le> history_length short_buffer \<and>
   generate_idxs short_buffer [0] [] [] = Some (Inl ValueError)"
  by (simp add: short_buffer_def)

text \<open>
  C4, amended. With a positive batch size and no more transitions than the history
  length, the sampler raises ValueError in its first iteration. With more transitions than
  the history length, but fewer acceptable windows than the batch size (in particular
  when every window is rejected for an episode end inside it), the sampler neither returns
  nor raises, however many draws it makes.
\<close>

theorem generate_idxs_exhaustion:
  "(0 < batch_size self \<and> current_len self \<le> history_length self
      \<longrightarrow> generate_idxs self draws [] [] = Some (Inl ValueError)) \<and>
   (initialized self \<and> history_length self < current_len self \<and>
    int (length (admissible_starts self)) < batch_size self
      \<longrightarrow> generate_idxs self draws [] [] = None)"
  using generate_idxs_ValueError[of self draws] generate_idxs_hang[of self "[]" draws "[]"]
  by simp

theorem generate_idxs_exhaustion_witness:
  "generate_idxs short_buffer [3, 1, 4] [] [] = Some (Inl ValueError) \<and>
   generate_idxs blocked_buffer [3, 1, 4, 1, 5, 9, 2, 6] [] [] = None"
proof -
  have a: "admissible_starts blocked_buffer = []"
    by (simp add: admissible_starts_def blocked_buffer_def np_any_def py_slice_def
        slice_bound_def upto.simps)
  have 1: "0 < batch_size short_buffer \<and> current_len short_buffer \<le> history_length short_buffer"
    by (simp add: short_buffer_def)
  have 2: "initialized blocked_buffer \<and> history_length blocked_buffer < current_len blocked_buffer \<and>
      int (length (admissible_starts blocked_buffer)) < batch_size blocked_buffer"
    unfolding a by (simp add: blocked_buffer_def)
  from generate_idxs_exhaustion[of short_buffer "[3, 1, 4]"] 1
    generate_idxs_exhaustion[of blocked_buffer "[3, 1, 4, 1, 5, 9, 2, 6]"] 2
  show ?thesis by blast
qed

section \<open>\<^verbatim>\<open>egreedy_police\<close>\<close>

lemma argmax_scan_first_max:
  assumes "first_max pre best_i" "pre ! best_i = best"
  shows "first_max (pre @ qs) (argmax_scan qs (length pre) best_i best)"
  using assms
proof (induction qs arbitrary: pre best_i best)
  case Nil
  then show ?case by simp
next
  case (Cons q qs)
  show ?case
  proof (cases "best < q")
    case True
    have "first_max (pre @ [q]) (length pre)"
      using Cons.prems True
      by (auto simp: first_max_def nth_append intro: less_imp_le le_less_trans)
    from Cons.IH[OF this, of q] True show ?thesis by simp
  next
    case False
    have "first_max (pre @ [q]) best_i"
      using Cons.prems False by (auto simp: first_max_def nth_append less_Suc_eq)
    moreover have "(pre @ [q]) ! best_i = best"
      using Cons.prems by (simp add: first_max_def nth_append)
    ultimately show ?thesis using Cons.IH[of "pre @ [q]" best_i best] False by simp
  qed
qed

lemma np_argmax_first_max:
  "Q \<noteq> [] \<Longrightarrow> \<exists>i. np_argmax Q = Inr i \<and> first_max Q i"
proof (cases Q)
  case Nil
  assume "Q \<noteq> []"
  with Nil show ?thesis by simp
next
  case (Cons q qs)
  have "first_max [q] 0" by (simp add: first_max_def)
  from argmax_scan_first_max[OF this, of q qs] Cons show ?thesis
    by (simp add: np_argmax_def)
qed

text \<open>
  With at least two actions both branches return a valid action index.
\<close>

lemma egreedy_police_valid:
  assumes "2 \<le> length Q_values"
  shows "\<exists>i < length Q_values. egreedy_police Q_values epsilon u c = Inr i"
proof (cases "u \<le> epsilon")
  case True
  then show ?thesis using assms
    by (auto simp: egreedy_police_def squeezed_len_def random_choice_def)
next
  case False
  from assms have "Q_values \<noteq> []" by auto
  from np_argmax_first_max[OF this] False show ?thesis
    by (auto simp: egreedy_police_def first_max_def)
qed

text \<open>
  C3, as stated, fails at the draw \<open>0.0\<close>, which \<^verbatim>\<open>np.random.random()\<close> can return: the
  test \<open>u \<le> epsilon\<close> holds for \<open>epsilon = 0\<close>, the random branch runs, and on the
  Q-values \<open>[1, 2]\<close> it returns action \<open>0\<close> although the maximum is at index \<open>1\<close>.
\<close>

theorem egreedy_police_zero_draw_counterexample:
  "egreedy_police [1, 2 :: real] 0 0 0 = Inr 0 \<and> [1, 2 :: real] ! 0 < [1, 2] ! 1"
  by (simp add: egreedy_police_def squeezed_len_def random_choice_def)

text \<open>
  C3, amended. For every non-empty array of Q-values and \<open>epsilon = 0\<close>, for every random
  draw other than \<open>0.0\<close> (that is, \<open>0 < u\<close>) the policy returns the index of the maximum
  Q-value, the first one among equal maxima.
\<close>

theorem egreedy_police_greedy:
  assumes "Q_values \<noteq> []" "0 < u"
  shows "\<exists>i. egreedy_police Q_values 0 u c = Inr i \<and> i < length Q_values \<and>
             (\<forall>j < length Q_values. Q_values ! j \<le> Q_values ! i) \<and>
             (\<forall>j < i. Q_values ! j < Q_values ! i)"
  using np_argmax_first_max[OF assms(1)] assms(2)
  by (simp add: egreedy_police_def first_max_def)

theorem egreedy_police_greedy_witness:
  "egreedy_police [1, 3, 3, 2 :: real] 0 (1/2) 7 = Inr 1"
proof -
  have "[1, 3, 3, 2 :: real] \<noteq> []" "0 < (1/2 :: real)" by simp_all
  from egreedy_police_greedy[OF this, of 7]
  obtain i where "egreedy_police [1, 3, 3, 2 :: real] 0 (1/2) 7 = Inr i" by blast
  moreover have "egreedy_police [1, 3, 3, 2 :: real] 0 (1/2) 7 = Inr 1"
    by (simp add: egreedy_police_def np_argmax_def)
  ultimately show ?thesis by simp
qed

text \<open>
  C10 holds for two or more actions (\<open>egreedy_police_valid\<close>) and fails on the code for a
  single action: in the random branch \<^verbatim>\<open>np.squeeze\<close> turns the array of one Q-value into
  a zero-dimensional array and \<^verbatim>\<open>len\<close> raises TypeError, where the valid index is \<open>0\<close>.
\<close>

theorem egreedy_police_single_action:
  "egreedy_police [7/10 :: real] 1 (1/2) 0 = Inl TypeError \<and>
   egreedy_police [7/10 :: real] 0 (1/2) 0 = Inr 0"
  by (simp add: egreedy_police_def squeezed_len_def np_argmax_def)

section \<open>Rounding to binary64\<close>

text \<open>
  \<open>double_round\<close> maps no number but \<open>0\<close> to \<open>0\<close>, and is computed from a power of two
  that scales the number into \<open>[2\<^sup>5\<^sup>2, 2\<^sup>5\<^sup>3)\<close>. The values below are the roundings that
  the examples of the schedules go through; \<open>3602879701896397 / 2\<^sup>5\<^sup>5\<close> is the float
  written \<^verbatim>\<open>0.1\<close>.
\<close>

lemma floor_log2_eq: "0 < x \<Longrightarrow> floor_log2 x = \<lfloor>log 2 x\<rfloor>"
proof (induction x rule: floor_log2.induct)
  case (1 x)
  show ?case
  proof (cases "x < 1")
    case True
    with 1 have "floor_log2 (2 * x) = \<lfloor>log 2 (2 * x)\<rfloor>" by simp
    moreover have "log 2 (2 * x) = log 2 x + 1" using 1(3) by (simp add: log_mult)
    ultimately show ?thesis using True 1(3) by (subst floor_log2.simps) simp
  next
    case False
    show ?thesis
    proof (cases "2 \<le> x")
      case True
      with 1 False have "floor_log2 (x / 2) = \<lfloor>log 2 (x / 2)\<rfloor>" by simp
      moreover have "log 2 (x / 2) = log 2 x - 1" using 1(3) by (simp add: log_divide)
      ultimately show ?thesis using True False 1(3) by (subst floor_log2.simps) simp
    next
      case lt: False
      with False 1(3) have "0 \<le> log 2 x" "log 2 x < 1"
        by (simp_all add: le_log_iff log_less_iff)
      then have "\<lfloor>log 2 x\<rfloor> = 0" by (intro floor_unique) simp_all
      then show ?thesis using lt False 1(3) by (subst floor_log2.simps) simp
    qed
  qed
qed

lemma pow2_powr: "pow2 e = 2 powr (of_int e)"
proof (cases "0 \<le> e")
  case True
  then have "2 powr (of_int e) = (2::real) powr (real (nat e))" by simp
  also have "\<dots> = 2 ^ nat e" by (simp only: powr_realpow zero_less_numeral)
  finally show ?thesis using True by (simp add: pow2_def)
next
  case False
  then have "2 powr (of_int e) = (2::real) powr (- real (nat (- e)))" by simp
  also have "\<dots> = 1 / 2 ^ nat (- e)" by (simp only: powr_minus powr_realpow zero_less_numeral divide_inverse mult_1)
  finally show ?thesis using False by (simp add: pow2_def)
qed

lemma round_even_near: "\<bar>of_int (round_even y) - y\<bar> \<le> 1/2"
proof -
  have "of_int \<lfloor>y\<rfloor> \<le> y" "y < of_int \<lfloor>y\<rfloor> + 1" by linarith+
  then show ?thesis by (auto simp: round_even_def Let_def)
qed

lemma double_round_scaled:
  assumes "2 ^ 52 \<le> \<bar>x\<bar> * 2 ^ k" "\<bar>x\<bar> * 2 ^ k < 2 ^ 53"
  shows "double_round x = of_int (round_even (x * 2 ^ k)) / 2 ^ k"
proof -
  from assms(1) have x: "x \<noteq> 0" by auto
  then have ax: "0 < \<bar>x\<bar>" by simp
  have "log 2 (\<bar>x\<bar> * 2 ^ k) = log 2 \<bar>x\<bar> + real k"
    using ax by (simp add: log_mult log_nat_power)
  moreover have "52 \<le> log 2 (\<bar>x\<bar> * 2 ^ k)"
    using assms(1) ax by (subst le_log_iff) simp_all
  moreover have "log 2 (\<bar>x\<bar> * 2 ^ k) < 53"
    using assms(2) ax by (subst log_less_iff) simp_all
  ultimately have "52 - real k \<le> log 2 \<bar>x\<bar>" "log 2 \<bar>x\<bar> < 52 - real k + 1" by linarith+
  then have "\<lfloor>log 2 \<bar>x\<bar>\<rfloor> = 52 - int k" by (intro floor_unique) simp_all
  then have e: "floor_log2 \<bar>x\<bar> - 52 = - int k" using ax by (simp add: floor_log2_eq)
  have p: "pow2 (- int k) = 1 / 2 ^ k"
  proof (cases "k = 0")
    case True
    then show ?thesis by (simp add: pow2_def)
  next
    case False
    then have "\<not> 0 \<le> - int k" by simp
    then show ?thesis by (simp only: pow2_def if_False minus_minus nat_int)
  qed
  show ?thesis using x unfolding double_round_def e Let_def p by simp
qed

lemma double_round_nonzero: "double_round x = 0 \<Longrightarrow> x = 0"
proof (rule ccontr)
  assume dr: "double_round x = 0" and x: "x \<noteq> 0"
  define e where "e = floor_log2 \<bar>x\<bar> - 52"
  define y where "y = x / pow2 e"
  have e': "e = \<lfloor>log 2 \<bar>x\<bar>\<rfloor> - 52" using x by (simp add: e_def floor_log2_eq)
  have pos: "0 < pow2 e" by (simp add: pow2_powr)
  have "of_int e + 52 \<le> log 2 \<bar>x\<bar>" unfolding e' by simp
  then have "2 powr (of_int e + 52) \<le> \<bar>x\<bar>" using x by (simp add: le_log_iff)
  then have "2 powr 52 * pow2 e \<le> \<bar>x\<bar>" by (simp add: powr_add mult.commute pow2_powr)
  then have "2 powr 52 \<le> \<bar>x\<bar> / pow2 e" using pos by (simp add: field_simps)
  also have "\<dots> = \<bar>y\<bar>" using pos by (simp add: y_def)
  finally have "1 \<le> \<bar>y\<bar>" by simp
  with round_even_near[of y] have "round_even y \<noteq> 0" by auto
  then have "of_int (round_even y) * pow2 e \<noteq> (0::real)" using pos by simp
  with dr x show False by (simp add: double_round_def Let_def e_def y_def)
qed

lemma dr_tenth: "double_round (1/10) = 3602879701896397 / 36028797018963968"
  by (subst double_round_scaled[of _ 56]) (simp_all add: round_even_def)

lemma dr_half: "double_round (1/2) = 1/2"
  by (subst double_round_scaled[of _ 53]) (simp_all add: round_even_def)

lemma dr_mquarter: "double_round (- (1/4)) = - (1/4)"
  by (subst double_round_scaled[of _ 54]) (simp_all add: round_even_def)

lemma dr_two: "double_round 2 = 2"
  by (subst double_round_scaled[of _ 51]) (simp_all add: round_even_def)

lemma dr_zero: "double_round 0 = 0"
  by (simp add: double_round_def)

lemma dr_one: "double_round 1 = 1"
  by (subst double_round_scaled[of _ 52]) (simp_all add: round_even_def)

lemma dr_ten: "double_round 10 = 10"
  by (subst double_round_scaled[of _ 49]) (simp_all add: round_even_def)

lemma dr_tenth_again:
  "double_round (3602879701896397 / 36028797018963968) = 3602879701896397 / 36028797018963968"
  by (subst double_round_scaled[of _ 56]) (simp_all add: round_even_def)

lemma dr_four_tenths:
  "double_round (14411518807585587 / 36028797018963968) = 3602879701896397 / 9007199254740992"
  by (subst double_round_scaled[of _ 54]) (simp_all add: round_even_def)

lemma dr_m0: "double_round (- (1 / 20)) = - (3602879701896397 / 72057594037927936)"
  by (subst double_round_scaled[of _ 57]) (simp_all add: round_even_def)

lemma dr_m1:
  "double_round (- (3602879701896397 / 90071992547409920)) =
     - (5764607523034235 / 144115188075855872)"
  by (subst double_round_scaled[of _ 57]) (simp_all add: round_even_def)

lemma dr_m1_ten:
  "double_round (- (28823037615171175 / 72057594037927936)) =
     - (3602879701896397 / 9007199254740992)"
  by (subst double_round_scaled[of _ 54]) (simp_all add: round_even_def)

lemma dr_knot:
  "double_round (900719925474099 / 9007199254740992) = 900719925474099 / 9007199254740992"
  by (subst double_round_scaled[of _ 56]) (simp_all add: round_even_def)

lemma dr_mhalf: "double_round (- (1/2)) = - (1/2)"
  by (subst double_round_scaled[of _ 53]) (simp_all add: round_even_def)

section \<open>\<^verbatim>\<open>exponential_decay\<close>\<close>

text \<open>
  C6. For \<open>final_value\<close> in \<open>(0, 1)\<close> and \<open>stop_step > 0\<close>, with the rate
  \<open>k = - log final_value / stop_step\<close>: the schedule returns \<open>exp (- k * step)\<close> for every
  \<open>step \<le> stop_step\<close>, in particular \<open>1\<close> at step \<open>0\<close>, and \<open>final_value\<close> itself for
  every \<open>step > stop_step\<close>. Logarithm, exponential and rounding are those of the floats:
  all that is used of them is that \<open>0\<close> rounds to \<open>0\<close> and that the exponential of \<open>0\<close>
  is \<open>1\<close>.
\<close>

theorem exponential_decay_schedule:
  assumes "0 < final_value" "final_value < 1" "0 < stop_step"
    and "rd 0 = 0" "np_exp 0 = 1"
  shows "(step \<le> stop_step \<longrightarrow>
            exponential_decay np_log np_exp rd final_value stop_step step =
              np_exp (rd (- rd (- np_log final_value / stop_step) * step))) \<and>
         exponential_decay np_log np_exp rd final_value stop_step 0 = 1 \<and>
         (stop_step < step \<longrightarrow>
            exponential_decay np_log np_exp rd final_value stop_step step = final_value)"
  using assms by (simp add: exponential_decay_def)

theorem exponential_decay_schedule_witness:
  "exponential_decay (\<lambda>x. double_round (ln x)) (\<lambda>x. double_round (exp x)) double_round
     (double_round (1/10)) 100 0 = 1 \<and>
   exponential_decay (\<lambda>x. double_round (ln x)) (\<lambda>x. double_round (exp x)) double_round
     (double_round (1/10)) 100 101 = double_round (1/10)"
proof -
  have h: "0 < double_round (1/10)" "double_round (1/10) < 1" "(0::real) < 100"
    "double_round 0 = 0" "double_round (exp 0) = 1"
    by (simp_all add: dr_tenth dr_zero dr_one)
  from exponential_decay_schedule
    [where rd = double_round and np_exp = "\<lambda>x. double_round (exp x)"
       and np_log = "\<lambda>x. double_round (ln x)" and final_value = "double_round (1/10)"
       and stop_step = 100 and step = 101] h
  show ?thesis by simp
qed

section \<open>\<^verbatim>\<open>piecewise_linear_decay\<close>\<close>

lemma decay_rates_rates_of:
  assumes nz: "\<forall>x. rd x = 0 \<longrightarrow> x = 0"
  shows "length ys = length bs \<Longrightarrow> distinct_adj (b0 # bs) \<Longrightarrow>
   decay_rates rd (zip (butlast (y0 # ys))
      (zip ys (map (\<lambda>(start_step, end_step). rd (end_step - start_step))
                   (zip (butlast (b0 # bs)) bs))))
     = Inr (rates_of rd b0 bs y0 ys)"
proof (induction bs arbitrary: b0 y0 ys)
  case Nil
  then show ?case by simp
next
  case (Cons b1 bs)
  then obtain y1 ys' where ys: "ys = y1 # ys'" by (cases ys) auto
  with Cons.prems have "length ys' = length bs" "distinct_adj (b1 # bs)" "b0 \<noteq> b1" by auto
  moreover from \<open>b0 \<noteq> b1\<close> nz have "rd (b1 - b0) \<noteq> 0" by auto
  ultimately show ?case using Cons.IH[of ys' b1 y1] ys by simp
qed

lemma zip_segments_of:
  "length ys = length bs \<Longrightarrow>
   zip bs (zip (butlast (b0 # bs)) (zip (rates_of rd b0 bs y0 ys) (y0 # ys))) =
     segments_of rd b0 bs y0 ys"
proof (induction bs arbitrary: b0 y0 ys)
  case Nil
  then show ?case by simp
next
  case (Cons b1 bs)
  then obtain y1 ys' where ys: "ys = y1 # ys'" by (cases ys) auto
  with Cons.prems have "length ys' = length bs" by auto
  with Cons.IH[of ys' b1 y1] ys show ?case by simp
qed

lemma piecewise_linear_decay_segments:
  assumes "length values = length boundaries" "distinct_adj (0 # boundaries)"
    and nz: "\<forall>x. rd x = 0 \<longrightarrow> x = 0"
  shows "piecewise_linear_decay rd boundaries values initial_value =
    Inr (get_epsilon rd
           (segments_of rd 0 boundaries initial_value
              (map (\<lambda>value. rd (initial_value * value)) values))
           (last (initial_value # map (\<lambda>value. rd (initial_value * value)) values)))"
proof -
  let ?ys = "map (\<lambda>value. rd (initial_value * value)) values"
  have l: "length ?ys = length boundaries" using assms by simp
  show ?thesis
    unfolding piecewise_linear_decay_def Let_def list.sel
    by (simp only: decay_rates_rates_of[OF nz l assms(2)] zip_segments_of[OF l] sum.case)
qed

lemma get_epsilon_knot:
  "length ys = length bs \<Longrightarrow> sorted_wrt (<) bs \<Longrightarrow> i < length bs \<Longrightarrow>
   get_epsilon rd (segments_of rd b0 bs y0 ys) out (bs ! i) =
     segment_end rd ((b0 # bs) ! i) (bs ! i) ((y0 # ys) ! i) (ys ! i)"
proof (induction bs arbitrary: b0 y0 ys i)
  case Nil
  then show ?case by simp
next
  case (Cons b1 bs)
  then obtain y1 ys' where ys: "ys = y1 # ys'" by (cases ys) auto
  show ?case
  proof (cases i)
    case 0
    then show ?thesis by (simp add: ys segment_end_def)
  next
    case (Suc j)
    with Cons.prems ys have j: "j < length bs" "length ys' = length bs" "sorted_wrt (<) bs"
      and "b1 < bs ! j" by auto
    with Cons.IH[OF j(2,3,1), of b1 y1] Suc ys show ?thesis by simp
  qed
qed

lemma get_epsilon_outside:
  "\<forall>b \<in> set bs. b < x \<Longrightarrow> get_epsilon rd (segments_of rd b0 bs y0 ys) out x = out"
proof (induction bs arbitrary: b0 y0 ys)
  case Nil
  then show ?case by simp
next
  case (Cons b1 bs)
  then show ?case by (cases ys) auto
qed

lemma segment_end_exact: "x1 \<noteq> x0 \<Longrightarrow> segment_end (\<lambda>x. x) x0 x1 y0 y1 = y1"
  by (simp add: segment_end_def field_simps)

lemma segment_continuous:
  fixes F :: "real \<Rightarrow> real"
  assumes ne: "b0 \<noteq> b1" and F0: "F b1 = y1" and Fc: "continuous_on UNIV F"
    and G: "G = (\<lambda>x. if x \<le> b1 then - (y0 - y1) / (b1 - b0) * (x - b0) + y0 else F x)"
  shows "continuous_on UNIV G"
proof -
  let ?m = "- (y0 - y1) / (b1 - b0)"
  have knot: "?m * (b1 - b0) + y0 = y1" using ne by (simp add: field_simps)
  have "continuous_on ({..b1} \<union> {b1..}) (\<lambda>x. if x \<le> b1 then ?m * (x - b0) + y0 else F x)"
  proof (rule continuous_on_If)
    show "closed {..b1}" "closed {b1..}" by simp_all
    show "continuous_on {..b1} (\<lambda>x. ?m * (x - b0) + y0)" by (intro continuous_intros)
    show "continuous_on {b1..} F" using Fc by (rule continuous_on_subset) simp
    show "?m * (x - b0) + y0 = F x" if "x \<in> {..b1}" "\<not> x \<le> b1" for x using that by simp
    show "?m * (x - b0) + y0 = F x" if "x \<in> {b1..}" "x \<le> b1" for x
    proof -
      from that have "x = b1" by simp
      then show ?thesis using knot F0 by simp
    qed
  qed
  moreover have "{..b1} \<union> {b1..} = (UNIV :: real set)" by auto
  ultimately show ?thesis by (simp add: G)
qed

lemma get_epsilon_exact_continuous:
  assumes "length ys = length bs" "sorted_wrt (<) (b0 # bs)"
  shows "get_epsilon (\<lambda>x. x) (segments_of (\<lambda>x. x) b0 bs y0 ys) (last (y0 # ys)) b0 = y0 \<and>
         continuous_on UNIV (get_epsilon (\<lambda>x. x) (segments_of (\<lambda>x. x) b0 bs y0 ys) (last (y0 # ys)))"
  using assms
proof (induction bs arbitrary: b0 y0 ys)
  case Nil
  then show ?case by (simp add: fun_eq_iff)
next
  case (Cons b1 bs)
  then obtain y1 ys' where ys: "ys = y1 # ys'" by (cases ys) auto
  with Cons.prems have l: "length ys' = length bs" and s: "sorted_wrt (<) (b1 # bs)"
    and lt: "b0 < b1"
    by auto
  let ?F = "get_epsilon (\<lambda>x. x) (segments_of (\<lambda>x. x) b1 bs y1 ys') (last (y1 # ys'))"
  let ?G = "get_epsilon (\<lambda>x. x) (segments_of (\<lambda>x. x) b0 (b1 # bs) y0 ys) (last (y0 # ys))"
  from Cons.IH[OF l s, of y1]
  have F0: "?F b1 = y1" and Fc: "continuous_on UNIV ?F" by blast+
  have G: "?G = (\<lambda>x. if x \<le> b1 then - (y0 - y1) / (b1 - b0) * (x - b0) + y0 else ?F x)"
    using ys by (simp add: fun_eq_iff)
  from lt have ne: "b0 \<noteq> b1" by simp
  have 1: "?G b0 = y0" using lt ys by simp
  from segment_continuous[OF ne F0 Fc G] 1 show ?case by simp
qed

text \<open>
  C5, as stated, fails in two ways. The boundaries \<open>[0, 10]\<close> are strictly increasing
  and not empty, but the step from the implicit boundary \<open>0\<close> to the first boundary is
  zero, and building the schedule raises ZeroDivisionError. And the knot values are not
  exact in floats: for the boundaries \<open>[10, 20]\<close>, the values \<open>[0.5, 0.1]\<close> and the initial
  value \<open>1\<close> the schedule returns \<open>900719925474099 / 2\<^sup>5\<^sup>3\<close> (the float
  \<^verbatim>\<open>0.09999999999999998\<close>) at the boundary \<open>20\<close>, below \<open>1 * 0.1\<close>, which it returns
  beyond that boundary: a jump.
\<close>

theorem piecewise_linear_decay_knot_counterexample:
  "sorted_wrt (<) [0, 10 :: real] \<and>
   piecewise_linear_decay double_round [0, 10] [1/2, double_round (1/10)] 1 =
     Inl ZeroDivisionError \<and>
   map_sum id (\<lambda>f. map f [20, 21])
     (piecewise_linear_decay double_round [10, 20] [1/2, double_round (1/10)] 1) =
     Inr [900719925474099 / 9007199254740992, 3602879701896397 / 36028797018963968] \<and>
   double_round (1 * double_round (1/10)) = 3602879701896397 / 36028797018963968 \<and>
   (900719925474099 / 9007199254740992 :: real) < 3602879701896397 / 36028797018963968"
  by (simp add: piecewise_linear_decay_def dr_zero dr_tenth dr_half dr_ten dr_tenth_again
      dr_four_tenths dr_m0 dr_m1 dr_m1_ten dr_knot)

text \<open>
  C5, amended. For strictly increasing, non-empty boundaries whose first element is not
  \<open>0\<close>, with one value per boundary, and any initial value, in every arithmetic that
  rounds no number but \<open>0\<close> to \<open>0\<close> (binary64, exact arithmetic): the schedule is built;
  at the boundary \<open>boundaries[i]\<close> it returns the right end of the line of segment \<open>i\<close>,
  which runs from the previous knot (the knot \<open>(0, initial_value)\<close> for \<open>i = 0\<close>) to
  \<open>(boundaries[i], initial_value * values[i])\<close>; for every \<open>x\<close> above all boundaries it
  returns \<open>initial_value * values[-1]\<close>. In exact arithmetic the value at
  \<open>boundaries[i]\<close> is exactly \<open>initial_value * values[i]\<close> and the schedule is continuous.
\<close>

theorem piecewise_linear_decay_knots:
  assumes "boundaries \<noteq> []" "sorted_wrt (<) boundaries"
    and "length values = length boundaries" "hd boundaries \<noteq> 0"
    and "\<forall>x. rd x = 0 \<longrightarrow> x = 0"
  shows "(\<exists>f. piecewise_linear_decay rd boundaries values initial_value = Inr f \<and>
           (\<forall>i < length boundaries. f (boundaries ! i) =
               segment_end rd ((0 # boundaries) ! i) (boundaries ! i)
                 ((initial_value # map (\<lambda>value. rd (initial_value * value)) values) ! i)
                 (rd (initial_value * values ! i))) \<and>
           (\<forall>x. (\<forall>b \<in> set boundaries. b < x) \<longrightarrow> f x = rd (initial_value * last values))) \<and>
         (\<exists>g. piecewise_linear_decay (\<lambda>x. x) boundaries values initial_value = Inr g \<and>
           (\<forall>i < length boundaries. g (boundaries ! i) = initial_value * values ! i) \<and>
           continuous_on UNIV g)"
proof -
  from assms(1) obtain b1 bs where bs: "boundaries = b1 # bs" by (cases boundaries) auto
  from assms(3) bs obtain v1 vs where vs: "values = v1 # vs" by (cases "values") auto
  from assms bs have s: "sorted_wrt (<) (b1 # bs)" and ne: "0 \<noteq> b1" by auto
  from s have "distinct_adj (b1 # bs)"
    by (induction bs arbitrary: b1) auto
  with ne have da: "distinct_adj (0 # boundaries)" by (simp add: bs)
  have part: "\<exists>f. piecewise_linear_decay r boundaries values initial_value = Inr f \<and>
           (\<forall>i < length boundaries. f (boundaries ! i) =
               segment_end r ((0 # boundaries) ! i) (boundaries ! i)
                 ((initial_value # map (\<lambda>value. r (initial_value * value)) values) ! i)
                 (r (initial_value * values ! i))) \<and>
           (\<forall>x. (\<forall>b \<in> set boundaries. b < x) \<longrightarrow> f x = r (initial_value * last values))"
    if nz: "\<forall>x. r x = 0 \<longrightarrow> x = 0" for r :: "real \<Rightarrow> real"
  proof -
    let ?ys = "map (\<lambda>value. r (initial_value * value)) values"
    let ?f = "get_epsilon r (segments_of r 0 boundaries initial_value ?ys)
        (last (initial_value # ?ys))"
    have l: "length ?ys = length boundaries" using assms(3) by simp
    have run: "piecewise_linear_decay r boundaries values initial_value = Inr ?f"
      using piecewise_linear_decay_segments[OF assms(3) da nz] .
    have 1: "?f (boundaries ! i) = segment_end r ((0 # boundaries) ! i) (boundaries ! i)
        ((initial_value # ?ys) ! i) (r (initial_value * values ! i))"
      if "i < length boundaries" for i
      using get_epsilon_knot[OF l assms(2) that, of r 0 initial_value] that assms(3) by simp
    have 2: "?f x = r (initial_value * last values)" if "\<forall>b \<in> set boundaries. b < x" for x
    proof -
      have "?f x = last (initial_value # ?ys)" using that by (rule get_epsilon_outside)
      also have "\<dots> = r (initial_value * last values)" by (simp add: vs last_map)
      finally show ?thesis .
    qed
    from run 1 2 show ?thesis by blast
  qed
  let ?ys = "map (\<lambda>value. initial_value * value) values"
  let ?g = "get_epsilon (\<lambda>x. x) (segments_of (\<lambda>x. x) 0 boundaries initial_value ?ys)
      (last (initial_value # ?ys))"
  have id: "\<forall>x::real. (\<lambda>x. x) x = 0 \<longrightarrow> x = 0" by simp
  have run: "piecewise_linear_decay (\<lambda>x. x) boundaries values initial_value = Inr ?g"
    using piecewise_linear_decay_segments[OF assms(3) da id] .
  have l: "length ?ys = length boundaries" using assms(3) by simp
  have k: "?g (boundaries ! i) = initial_value * values ! i" if "i < length boundaries" for i
  proof -
    have "(0 # boundaries) ! i \<noteq> boundaries ! i"
    proof (cases i)
      case 0
      then show ?thesis using ne bs by simp
    next
      case (Suc j)
      with that assms(2) have "boundaries ! j < boundaries ! Suc j"
        by (simp add: sorted_wrt_nth_less)
      with Suc show ?thesis by simp
    qed
    then have "segment_end (\<lambda>x. x) ((0 # boundaries) ! i) (boundaries ! i)
        ((initial_value # ?ys) ! i) (?ys ! i) = ?ys ! i"
      by (intro segment_end_exact) simp
    with get_epsilon_knot[OF l assms(2) that, of "\<lambda>x. x" 0 initial_value] that assms(3)
    show ?thesis by simp
  qed
  let ?y1 = "initial_value * v1"
  let ?ys' = "map (\<lambda>value. initial_value * value) vs"
  let ?F = "get_epsilon (\<lambda>x. x) (segments_of (\<lambda>x. x) b1 bs ?y1 ?ys') (last (?y1 # ?ys'))"
  have l': "length ?ys' = length bs" using assms(3) bs vs by simp
  from get_epsilon_exact_continuous[OF l' s, of ?y1]
  have F0: "?F b1 = ?y1" and Fc: "continuous_on UNIV ?F" by blast+
  have G: "?g = (\<lambda>x. if x \<le> b1 then - (initial_value - ?y1) / (b1 - 0) * (x - 0) + initial_value
      else ?F x)"
    by (simp add: bs vs fun_eq_iff)
  have c: "continuous_on UNIV ?g" using segment_continuous[OF ne F0 Fc G] .
  from run k c have "\<exists>g. piecewise_linear_decay (\<lambda>x. x) boundaries values initial_value = Inr g \<and>
           (\<forall>i < length boundaries. g (boundaries ! i) = initial_value * values ! i) \<and>
           continuous_on UNIV g" by blast
  with part[OF assms(5)] show ?thesis by blast
qed

theorem piecewise_linear_decay_knots_witness:
  "map_sum id (\<lambda>f. map f [2, 3]) (piecewise_linear_decay double_round [2] [1/2] 1) =
     Inr [1/2, 1/2]"
proof -
  have run: "map_sum id (\<lambda>f. map f [2, 3]) (piecewise_linear_decay double_round [2] [1/2] 1) =
     Inr [1/2, 1/2]"
    by (simp add: piecewise_linear_decay_def dr_half dr_two dr_mquarter dr_mhalf)
  have "[2 :: real] \<noteq> []" "sorted_wrt (<) [2 :: real]"
    "length [1/2 :: real] = length [2 :: real]" "hd [2 :: real] \<noteq> 0"
    "\<forall>x. double_round x = 0 \<longrightarrow> x = 0"
    using double_round_nonzero by auto
  from piecewise_linear_decay_knots[OF this, of 1]
  obtain f where "piecewise_linear_decay double_round [2] [1/2] 1 = Inr f"
    and "\<forall>x. (\<forall>b \<in> set [2 :: real]. b < x) \<longrightarrow> f x = double_round (1 * last [1/2])"
    by blast
  with run show ?thesis by simp
qed

section \<open>\<^verbatim>\<open>discounted_sum_rewards\<close>\<close>

lemma returns_from_snoc:
  "returns_from (ys @ [x]) g s = returns_from ys g (x + g * s) @ [x + g * s]"
  by (induction ys) (auto split: list.splits)

lemma discounted_loop_returns:
  "discounted_loop xs g s acc = acc @ rev (returns_from (rev xs) g s)"
  by (induction xs arbitrary: s acc) (simp_all add: returns_from_snoc Let_def)

lemma discounted_sum_rewards_returns:
  "discounted_sum_rewards rs g = returns_from rs g 0"
  by (simp add: discounted_sum_rewards_def discounted_loop_returns)

lemma length_returns_from: "length (returns_from rs g s) = length rs"
  by (induction rs) simp_all

lemma returns_from_nth:
  "t < length rs \<Longrightarrow> returns_from rs g s ! t =
     rs ! t + g * (if Suc t < length rs then returns_from rs g s ! Suc t else s)"
proof (induction rs arbitrary: t)
  case Nil
  then show ?case by simp
next
  case (Cons r rs)
  show ?case
  proof (cases t)
    case 0
    then show ?thesis
      by (cases "returns_from rs g s") (use length_returns_from[of rs g s] in auto)
  next
    case (Suc k)
    with Cons show ?thesis by simp
  qed
qed

text \<open>
  C7. For every reward sequence and every gamma, \<open>discounted_sum_rewards\<close> returns one
  value per reward, in forward order, with \<open>G\<^sub>t = r\<^sub>t + gamma * G\<^sub>t\<^sub>+\<^sub>1\<close> and \<open>G\<^sub>n = 0\<close>
  after the last reward; on \<open>[1, 1, 1]\<close> with gamma \<open>0.5\<close> it returns
  \<open>[1.75, 1.5, 1.0]\<close>.
\<close>

theorem discounted_sum_rewards_recurrence:
  "length (discounted_sum_rewards rs g) = length rs \<and>
   (\<forall>t < length rs. discounted_sum_rewards rs g ! t =
       rs ! t + g * (if Suc t < length rs then discounted_sum_rewards rs g ! Suc t else 0)) \<and>
   discounted_sum_rewards [1, 1, 1] (1/2 :: real) = [7/4, 3/2, 1]"
  by (simp add: discounted_sum_rewards_returns length_returns_from returns_from_nth)

theorem discounted_sum_rewards_recurrence_witness:
  "discounted_sum_rewards [3, 5 :: int] 2 = [13, 5] \<and>
   discounted_sum_rewards [3, 5 :: int] 2 ! 0 = 3 + 2 * discounted_sum_rewards [3, 5 :: int] 2 ! 1 \<and>
   discounted_sum_rewards [3, 5 :: int] 2 ! 1 = 5 + 2 * 0"
  using discounted_sum_rewards_recurrence [of "[3, 5 :: int]" 2]
  by (simp add: discounted_sum_rewards_def)

end
